theory Spec2Isabelle
  imports Main "HOL-Library.AList"
begin

section \<open>Smart search: keyword scoring and destination ranking (search.js)\<close>

text \<open>
  The development embeds the scoring and ranking pipeline of \<^verbatim>\<open>search.js\<close>:
  \<^verbatim>\<open>fallbackScoring\<close>, \<^verbatim>\<open>analyzeQueryWithClaude\<close>, \<^verbatim>\<open>findMatchingDestinations\<close> and the
  transformation that fills \<^verbatim>\<open>DESTINATIONS\<close>.

  Conventions of the embedding.
  \<^item> A JavaScript string is a \<open>string\<close>; the queries and keywords considered are sequences
    of 8-bit characters.
  \<^item> A JavaScript number is an integer (\<open>Num n\<close>) or \<open>NaN\<close>. The scores of the program are
    the integers 1, 7, 9, the bonuses 2 and 3, and what the remote service was asked for
    ("a scale from 0-10"); fractions and infinities are outside the model.
  \<^item> A JavaScript object used as a dictionary is an association list in insertion order;
    \<open>map_of\<close> reads a property (\<open>None\<close> is \<^verbatim>\<open>undefined\<close>) and \<open>AList.update\<close> assigns one.
  \<^item> \<^verbatim>\<open>forEach\<close> with mutation of local variables is a \<open>fold\<close> over the array with the
    mutated variables as state.
  \<^item> \<^verbatim>\<open>Array.prototype.sort\<close> with the comparator \<^verbatim>\<open>(a, b) => b.score - a.score\<close> is the
    stable sort by descending score (ECMAScript 2019 requires stability), written
    \<open>sort_key\<close> on the negated score.
\<close>

subsection \<open>Numbers and score maps\<close>

datatype jsnum = Num int | NaN

type_synonym ScoreMap = "(string \<times> jsnum) list"

text \<open>\<^verbatim>\<open>x + d\<close> for a property value \<open>x\<close> that may be \<^verbatim>\<open>undefined\<close>: \<^verbatim>\<open>undefined + d\<close> and
  \<^verbatim>\<open>NaN + d\<close> are \<^verbatim>\<open>NaN\<close>.\<close>

fun js_plus :: "jsnum option \<Rightarrow> int \<Rightarrow> jsnum" where
  "js_plus (Some (Num n)) d = Num (n + d)"
| "js_plus (Some NaN) d = NaN"
| "js_plus None d = NaN"

text \<open>\<^verbatim>\<open>Math.min(x, c)\<close>: \<^verbatim>\<open>NaN\<close> if an argument converts to \<^verbatim>\<open>NaN\<close>.\<close>

fun Math_min :: "jsnum option \<Rightarrow> int \<Rightarrow> jsnum" where
  "Math_min (Some (Num n)) c = Num (min n c)"
| "Math_min (Some NaN) c = NaN"
| "Math_min None c = NaN"

subsection \<open>Strings\<close>

text \<open>\<^verbatim>\<open>String.prototype.toLowerCase\<close> on the ASCII letters; every other character is left
  as it is, so a query with letters outside ASCII is outside the model. The theorems below
  speak of the lower-cased query and hold whatever the mapping of the characters is.\<close>

definition lower_char :: "char \<Rightarrow> char" where
  "lower_char c =
     (case map_of (zip ''ABCDEFGHIJKLMNOPQRSTUVWXYZ'' ''abcdefghijklmnopqrstuvwxyz'') c of
        Some l \<Rightarrow> l
      | None \<Rightarrow> c)"

definition toLowerCase :: "string \<Rightarrow> string" where
  "toLowerCase s = map lower_char s"

fun startsWith :: "string \<Rightarrow> string \<Rightarrow> bool" where
  "startsWith s [] = True"
| "startsWith [] (p # ps) = False"
| "startsWith (c # cs) (p # ps) = (c = p \<and> startsWith cs ps)"

text \<open>\<^verbatim>\<open>s.includes(p)\<close>: \<open>p\<close> occurs in \<open>s\<close> at some position; the empty string occurs in
  every string.\<close>

fun js_includes :: "string \<Rightarrow> string \<Rightarrow> bool" where
  "js_includes [] p = (p = [])"
| "js_includes (c # cs) p = (startsWith (c # cs) p \<or> js_includes cs p)"

text \<open>\<^verbatim>\<open>keyword.slice(0, -2)\<close>: the end index is \<open>max (length - 2) 0\<close>.\<close>

definition slice_0_minus2 :: "string \<Rightarrow> string" where
  "slice_0_minus2 keyword = take (length keyword - 2) keyword"

subsection \<open>The fallback scorer\<close>

definition PREDEFINED_KEYWORDS :: "string list" where
  "PREDEFINED_KEYWORDS =
     [''beach'', ''mountain'', ''island'', ''city'', ''adventure'', ''cultural'',
      ''historical'', ''tropical'', ''winter'', ''summer'', ''family'', ''romantic'',
      ''budget'', ''luxury'', ''food'', ''nightlife'', ''nature'', ''photography'']"

text \<open>The body of the first \<^verbatim>\<open>forEach\<close> of \<^verbatim>\<open>fallbackScoring\<close>: the value assigned to
  \<^verbatim>\<open>scores[keyword]\<close>.\<close>

definition base_score :: "string \<Rightarrow> string \<Rightarrow> int" where
  "base_score queryLower keyword =
     (if js_includes queryLower keyword then 9
      else if js_includes queryLower (slice_0_minus2 keyword) then 7
      else 1)"

definition base_scores :: "string list \<Rightarrow> string \<Rightarrow> ScoreMap" where
  "base_scores vocabulary queryLower =
     fold (\<lambda>keyword scores. AList.update keyword (Num (base_score queryLower keyword)) scores)
       vocabulary []"

text \<open>\<^verbatim>\<open>scores[key] += d\<close>.\<close>

definition add_to :: "string \<Rightarrow> int \<Rightarrow> ScoreMap \<Rightarrow> ScoreMap" where
  "add_to key d scores = AList.update key (js_plus (map_of scores key) d) scores"

text \<open>The four \<^verbatim>\<open>if\<close> statements that follow the first loop, in their order.\<close>

definition vacation_rule :: "string \<Rightarrow> ScoreMap \<Rightarrow> ScoreMap" where
  "vacation_rule queryLower scores =
     (if js_includes queryLower ''vacation'' \<or> js_includes queryLower ''holiday''
      then add_to ''tropical'' 2 (add_to ''beach'' 2 scores)
      else scores)"

definition hiking_rule :: "string \<Rightarrow> ScoreMap \<Rightarrow> ScoreMap" where
  "hiking_rule queryLower scores =
     (if js_includes queryLower ''hiking'' \<or> js_includes queryLower ''trek''
      then add_to ''nature'' 3 (add_to ''adventure'' 3 (add_to ''mountain'' 3 scores))
      else scores)"

definition resort_rule :: "string \<Rightarrow> ScoreMap \<Rightarrow> ScoreMap" where
  "resort_rule queryLower scores =
     (if js_includes queryLower ''resort'' \<or> js_includes queryLower ''spa''
      then add_to ''romantic'' 2 (add_to ''luxury'' 3 scores)
      else scores)"

definition museum_rule :: "string \<Rightarrow> ScoreMap \<Rightarrow> ScoreMap" where
  "museum_rule queryLower scores =
     (if js_includes queryLower ''museum'' \<or> js_includes queryLower ''history''
      then add_to ''city'' 2 (add_to ''cultural'' 3 (add_to ''historical'' 3 scores))
      else scores)"

definition phrase_bonuses :: "string \<Rightarrow> ScoreMap \<Rightarrow> ScoreMap" where
  "phrase_bonuses queryLower scores =
     museum_rule queryLower (resort_rule queryLower
       (hiking_rule queryLower (vacation_rule queryLower scores)))"

text \<open>\<^verbatim>\<open>Object.keys(scores).forEach(key => { scores[key] = Math.min(scores[key], 10); })\<close>:
  the keys are read once, then every one is reassigned.\<close>

definition cap_scores :: "ScoreMap \<Rightarrow> ScoreMap" where
  "cap_scores scores =
     fold (\<lambda>key scores'. AList.update key (Math_min (map_of scores' key) 10) scores')
       (map fst scores) scores"

text \<open>\<^verbatim>\<open>fallbackScoring\<close> with the vocabulary it closes over made a parameter, and the
  function of the program, which reads the constant \<^verbatim>\<open>PREDEFINED_KEYWORDS\<close>.\<close>

definition fallbackScoring_over :: "string list \<Rightarrow> string \<Rightarrow> ScoreMap" where
  "fallbackScoring_over vocabulary query =
     (let queryLower = toLowerCase query;
          scores = base_scores vocabulary queryLower;
          scores = phrase_bonuses queryLower scores
      in cap_scores scores)"

definition fallbackScoring :: "string \<Rightarrow> ScoreMap" where
  "fallbackScoring query = fallbackScoring_over PREDEFINED_KEYWORDS query"

subsection \<open>The remote scorer\<close>

text \<open>
  What \<^verbatim>\<open>analyzeQueryWithClaude\<close> sees of the remote service, one constructor for each way
  through its two \<^verbatim>\<open>try\<close> blocks:
  \<^item> \<open>CallFailed\<close>: \<^verbatim>\<open>fetch\<close>, \<^verbatim>\<open>response.text()\<close> or \<^verbatim>\<open>JSON.parse(jsonStr)\<close> throws (outer
    \<^verbatim>\<open>catch\<close>);
  \<^item> \<open>NoContent\<close>: \<^verbatim>\<open>data.success && data.data && data.data.content\<close> is falsy, an \<^verbatim>\<open>Error\<close> is
    thrown (inner \<^verbatim>\<open>catch\<close>);
  \<^item> \<open>ContentUnreadable\<close>: \<^verbatim>\<open>data.data.content[0].text\<close> or \<^verbatim>\<open>content.match\<close> throws, or
    \<^verbatim>\<open>JSON.parse(jsonMatch[0])\<close> throws (inner \<^verbatim>\<open>catch\<close>);
  \<^item> \<open>NoJsonObject\<close>: the regular expression finds no \<^verbatim>\<open>{...}\<close> in the text;
  \<^item> \<open>JsonObject obj\<close>: \<^verbatim>\<open>JSON.parse(jsonMatch[0])\<close> returns \<open>obj\<close>. The match begins with
    a brace, so the value is an object; its property values are taken to be integers, as the
    request asks for. Any keys and any integers may come back.
\<close>

datatype claude_reply =
    CallFailed
  | NoContent
  | ContentUnreadable
  | NoJsonObject
  | JsonObject ScoreMap

fun analyzeQueryWithClaude :: "string \<Rightarrow> claude_reply \<Rightarrow> ScoreMap" where
  "analyzeQueryWithClaude query CallFailed = fallbackScoring query"
| "analyzeQueryWithClaude query NoContent = fallbackScoring query"
| "analyzeQueryWithClaude query ContentUnreadable = fallbackScoring query"
| "analyzeQueryWithClaude query NoJsonObject = fallbackScoring query"
| "analyzeQueryWithClaude query (JsonObject obj) = obj"

subsection \<open>Destinations and their load\<close>

text \<open>The value of a destination's \<^verbatim>\<open>keywords\<close> property: an array of strings, or a value
  for which \<^verbatim>\<open>!keywords || !Array.isArray(keywords)\<close> holds.\<close>

datatype keywords_value = NotAnArray | KeywordArray "string list"

record destination =
  d_id :: string
  d_name :: string
  d_keywords :: keywords_value
  d_image :: "string option"
  d_description :: "string option"
  d_region :: "string option"
  d_icon :: string

text \<open>A record of the database as \<^verbatim>\<open>API.getAllDestinations\<close> delivers it; \<open>None\<close> is a
  property that is absent.\<close>

record raw_destination =
  DestinationID :: string
  Name :: string
  Country :: "string option"
  Keywords :: "string option"
  ImageURL :: "string option"
  Description :: "string option"
  Region :: "string option"
  Icon :: "string option"

record api_response =
  success :: bool
  destinations :: "raw_destination list option"

text \<open>\<^verbatim>\<open>x || dflt\<close> on an optional string: the empty string is falsy.\<close>

fun or_default :: "string option \<Rightarrow> string \<Rightarrow> string" where
  "or_default None dflt = dflt"
| "or_default (Some s) dflt = (if s = [] then dflt else s)"

text \<open>The function mapped over \<^verbatim>\<open>response.destinations\<close>. \<^verbatim>\<open>JSON.parse\<close> is a parameter: it
  returns \<open>None\<close> where it throws a \<^verbatim>\<open>SyntaxError\<close>.\<close>

definition transform_destination ::
    "(string \<Rightarrow> keywords_value option) \<Rightarrow> raw_destination \<Rightarrow> destination" where
  "transform_destination JSON_parse dest =
     (let keywords =
            (case Keywords dest of
               None \<Rightarrow> KeywordArray []
             | Some s \<Rightarrow>
                 if s = [] then KeywordArray []
                 else (case JSON_parse s of
                         None \<Rightarrow> KeywordArray []
                       | Some parsed \<Rightarrow> parsed))
      in \<lparr> d_id = DestinationID dest,
           d_name = Name dest @ (case Country dest of
                                   None \<Rightarrow> []
                                 | Some c \<Rightarrow> if c = [] then [] else '', '' @ c),
           d_keywords = keywords,
           d_image = Some (or_default (ImageURL dest) []),
           d_description = Some (or_default (Description dest) []),
           d_region = Some (or_default (Region dest) []),
           d_icon = or_default (Icon dest) ''fa-map-marker-alt'' \<rparr>)"

definition default_destination :: "string \<Rightarrow> string \<Rightarrow> string list \<Rightarrow> string \<Rightarrow> destination" where
  "default_destination i n ks ic =
     \<lparr> d_id = i, d_name = n, d_keywords = KeywordArray ks, d_image = None,
       d_description = None, d_region = None, d_icon = ic \<rparr>"

definition DEFAULT_DESTINATIONS :: "destination list" where
  "DEFAULT_DESTINATIONS =
     [default_destination ''D-001'' ''Bali, Indonesia''
        [''beach'', ''island'', ''tropical'', ''cultural'', ''summer'', ''photography'']
        ''fa-umbrella-beach'',
      default_destination ''D-002'' ''Patagonia, Chile''
        [''mountain'', ''adventure'', ''nature'', ''photography''] ''fa-mountain'',
      default_destination ''D-003'' ''Kyoto, Japan''
        [''cultural'', ''historical'', ''city'', ''photography'', ''food''] ''fa-landmark'',
      default_destination ''D-004'' ''Lisbon, Portugal''
        [''city'', ''historical'', ''food'', ''summer'', ''budget''] ''fa-city'',
      default_destination ''D-005'' ''Santorini, Greece''
        [''island'', ''beach'', ''romantic'', ''summer'', ''photography''] ''fa-water'']"

text \<open>The start-up code that assigns \<^verbatim>\<open>DESTINATIONS\<close>. The response is \<open>None\<close> when
  \<^verbatim>\<open>API.getAllDestinations\<close> throws.\<close>

definition load_DESTINATIONS ::
    "(string \<Rightarrow> keywords_value option) \<Rightarrow> api_response option \<Rightarrow> destination list" where
  "load_DESTINATIONS JSON_parse response =
     (case response of
        None \<Rightarrow> DEFAULT_DESTINATIONS
      | Some r \<Rightarrow>
          (case destinations r of
             None \<Rightarrow> DEFAULT_DESTINATIONS
           | Some dests \<Rightarrow>
               if success r then map (transform_destination JSON_parse) dests
               else DEFAULT_DESTINATIONS))"

subsection \<open>The ranker\<close>

record MatchResult =
  r_id :: string
  r_name :: string
  r_score :: int
  r_matchedKeywords :: "(string \<times> int) list"
  r_image :: "string option"
  r_description :: "string option"
  r_region :: "string option"
  r_icon :: string

text \<open>The body of the inner \<^verbatim>\<open>forEach\<close>, with the literal of the comparison a parameter
  (5 in the first loop, 3 in the second). \<^verbatim>\<open>keywordScores[keyword] && keywordScores[keyword] > c\<close>
  is false for \<^verbatim>\<open>undefined\<close>, \<^verbatim>\<open>NaN\<close> and 0.\<close>

definition score_keyword ::
    "int \<Rightarrow> ScoreMap \<Rightarrow> string \<Rightarrow> int \<times> (string \<times> int) list \<Rightarrow> int \<times> (string \<times> int) list" where
  "score_keyword c keywordScores keyword acc =
     (case acc of (totalScore, matchedKeywords) \<Rightarrow>
        (case map_of keywordScores keyword of
           Some (Num v) \<Rightarrow>
             if v \<noteq> 0 \<and> v > c
             then (totalScore + v, matchedKeywords @ [(keyword, v)])
             else (totalScore, matchedKeywords)
         | Some NaN \<Rightarrow> (totalScore, matchedKeywords)
         | None \<Rightarrow> (totalScore, matchedKeywords)))"

text \<open>\<^verbatim>\<open>matchedKeywords.sort((a, b) => b.score - a.score).slice(0, 3)\<close>.\<close>

definition top_matched :: "(string \<times> int) list \<Rightarrow> (string \<times> int) list" where
  "top_matched matchedKeywords = take 3 (sort_key (\<lambda>m. - snd m) matchedKeywords)"

definition push_result ::
    "destination \<Rightarrow> int \<times> (string \<times> int) list \<Rightarrow> MatchResult list \<Rightarrow> MatchResult list" where
  "push_result destination acc results =
     (case acc of (totalScore, matchedKeywords) \<Rightarrow>
        if totalScore > 0
        then results @
          [\<lparr> r_id = d_id destination, r_name = d_name destination, r_score = totalScore,
             r_matchedKeywords = top_matched matchedKeywords,
             r_image = d_image destination, r_description = d_description destination,
             r_region = d_region destination, r_icon = d_icon destination \<rparr>]
        else results)"

text \<open>The body of the first loop over \<^verbatim>\<open>DESTINATIONS\<close>.\<close>

definition first_pass_step :: "ScoreMap \<Rightarrow> destination \<Rightarrow> MatchResult list \<Rightarrow> MatchResult list" where
  "first_pass_step keywordScores destination results =
     (case d_keywords destination of
        NotAnArray \<Rightarrow> results
      | KeywordArray ks \<Rightarrow>
          if length ks = 0 then results
          else push_result destination (fold (score_keyword 5 keywordScores) ks (0, [])) results)"

text \<open>The body of the second loop, which has no test of the length.\<close>

definition second_pass_step :: "ScoreMap \<Rightarrow> destination \<Rightarrow> MatchResult list \<Rightarrow> MatchResult list" where
  "second_pass_step keywordScores destination results =
     (case d_keywords destination of
        NotAnArray \<Rightarrow> results
      | KeywordArray ks \<Rightarrow>
          push_result destination (fold (score_keyword 3 keywordScores) ks (0, [])) results)"

definition first_pass :: "ScoreMap \<Rightarrow> destination list \<Rightarrow> MatchResult list" where
  "first_pass keywordScores DESTINATIONS = fold (first_pass_step keywordScores) DESTINATIONS []"

definition second_pass :: "ScoreMap \<Rightarrow> destination list \<Rightarrow> MatchResult list \<Rightarrow> MatchResult list" where
  "second_pass keywordScores DESTINATIONS results =
     fold (second_pass_step keywordScores) DESTINATIONS results"

definition findMatchingDestinations :: "ScoreMap \<Rightarrow> destination list \<Rightarrow> MatchResult list" where
  "findMatchingDestinations keywordScores DESTINATIONS =
     (let results = first_pass keywordScores DESTINATIONS;
          results = (if length results = 0
                     then second_pass keywordScores DESTINATIONS results
                     else results)
      in sort_key (\<lambda>r. - r_score r) results)"

subsection \<open>The ranking procedure in the words of the specification\<close>

text \<open>For a keyword, \<open>scores[keyword] > threshold\<close>, and the score it then contributes.\<close>

definition scores_above :: "int \<Rightarrow> ScoreMap \<Rightarrow> string \<Rightarrow> bool" where
  "scores_above threshold scores keyword =
     (case map_of scores keyword of Some (Num v) \<Rightarrow> v > threshold | Some NaN \<Rightarrow> False | None \<Rightarrow> False)"

definition score_of :: "ScoreMap \<Rightarrow> string \<Rightarrow> int" where
  "score_of scores keyword =
     (case map_of scores keyword of Some (Num v) \<Rightarrow> v | Some NaN \<Rightarrow> 0 | None \<Rightarrow> 0)"

definition entity_keywords :: "destination \<Rightarrow> string list" where
  "entity_keywords e = (case d_keywords e of NotAnArray \<Rightarrow> [] | KeywordArray ks \<Rightarrow> ks)"

definition contributing :: "int \<Rightarrow> ScoreMap \<Rightarrow> destination \<Rightarrow> string list" where
  "contributing threshold scores e = filter (scores_above threshold scores) (entity_keywords e)"

definition total :: "int \<Rightarrow> ScoreMap \<Rightarrow> destination \<Rightarrow> int" where
  "total threshold scores e = sum_list (map (score_of scores) (contributing threshold scores e))"

definition matched :: "int \<Rightarrow> ScoreMap \<Rightarrow> destination \<Rightarrow> (string \<times> int) list" where
  "matched threshold scores e =
     map (\<lambda>k. (k, score_of scores k)) (contributing threshold scores e)"

definition match_result :: "int \<Rightarrow> ScoreMap \<Rightarrow> destination \<Rightarrow> MatchResult" where
  "match_result threshold scores e =
     \<lparr> r_id = d_id e, r_name = d_name e, r_score = total threshold scores e,
       r_matchedKeywords = take 3 (sort_key (\<lambda>m. - snd m) (matched threshold scores e)),
       r_image = d_image e, r_description = d_description e,
       r_region = d_region e, r_icon = d_icon e \<rparr>"

definition rank_pass :: "int \<Rightarrow> ScoreMap \<Rightarrow> destination list \<Rightarrow> MatchResult list" where
  "rank_pass threshold scores catalog =
     map (match_result threshold scores) (filter (\<lambda>e. total threshold scores e \<noteq> 0) catalog)"

subsection \<open>The phrase bonuses in the words of the specification\<close>

text \<open>The bonus a rule gives a keyword: each rule counts once when one of its phrases occurs in
  the lower-cased query, however often it occurs.\<close>

definition vacation_bonus :: "string \<Rightarrow> string \<Rightarrow> int" where
  "vacation_bonus queryLower keyword =
     (if js_includes queryLower ''vacation'' \<or> js_includes queryLower ''holiday''
      then (if keyword = ''beach'' \<or> keyword = ''tropical'' then 2 else 0)
      else 0)"

definition hiking_bonus :: "string \<Rightarrow> string \<Rightarrow> int" where
  "hiking_bonus queryLower keyword =
     (if js_includes queryLower ''hiking'' \<or> js_includes queryLower ''trek''
      then (if keyword = ''mountain'' \<or> keyword = ''adventure'' \<or> keyword = ''nature''
            then 3 else 0)
      else 0)"

definition resort_bonus :: "string \<Rightarrow> string \<Rightarrow> int" where
  "resort_bonus queryLower keyword =
     (if js_includes queryLower ''resort'' \<or> js_includes queryLower ''spa''
      then (if keyword = ''luxury'' then 3 else if keyword = ''romantic'' then 2 else 0)
      else 0)"

definition museum_bonus :: "string \<Rightarrow> string \<Rightarrow> int" where
  "museum_bonus queryLower keyword =
     (if js_includes queryLower ''museum'' \<or> js_includes queryLower ''history''
      then (if keyword = ''historical'' \<or> keyword = ''cultural'' then 3
            else if keyword = ''city'' then 2 else 0)
      else 0)"

definition phrase_bonus :: "string \<Rightarrow> string \<Rightarrow> int" where
  "phrase_bonus queryLower keyword =
     vacation_bonus queryLower keyword + hiking_bonus queryLower keyword
       + resort_bonus queryLower keyword + museum_bonus queryLower keyword"

text \<open>Adding a bonus \<open>d\<close> to a property that may be absent; no assignment is made when no
  rule gives a bonus.\<close>

definition bumped :: "jsnum option \<Rightarrow> int \<Rightarrow> jsnum option" where
  "bumped x d = (if d = 0 then x else Some (js_plus x d))"

text \<open>The keywords that the four rules assign to.\<close>

definition bonus_keywords :: "string list" where
  "bonus_keywords =
     [''beach'', ''tropical'', ''mountain'', ''adventure'', ''nature'', ''luxury'', ''romantic'',
      ''historical'', ''cultural'', ''city'']"

text \<open>The literal of the comparison in the loop whose results are returned.\<close>

definition active_threshold :: "ScoreMap \<Rightarrow> destination list \<Rightarrow> int" where
  "active_threshold scores catalog = (if first_pass scores catalog = [] then 3 else 5)"

text \<open>In a list, \<open>a\<close> stands at an earlier position than some occurrence of \<open>b\<close>.\<close>

fun precedes :: "'a \<Rightarrow> 'a \<Rightarrow> 'a list \<Rightarrow> bool" where
  "precedes a b [] = False"
| "precedes a b (x # xs) = ((x = a \<and> b \<in> set xs) \<or> precedes a b xs)"

section \<open>Properties of the scorer\<close>

subsection \<open>Substrings\<close>



lemma map_of_fold_base:
  "map_of (fold (\<lambda>keyword scores. AList.update keyword (Num (g keyword)) scores) vocabulary acc) k =
     (if k \<in> set vocabulary then Some (Num (g k)) else map_of acc k)"
  by (induction vocabulary arbitrary: acc) (auto simp: update_conv')

lemma map_of_base_scores:
  "map_of (base_scores vocabulary queryLower) k =
     (if k \<in> set vocabulary then Some (Num (base_score queryLower k)) else None)"
  by (simp add: base_scores_def map_of_fold_base)

lemma map_of_add_to:
  "map_of (add_to key d scores) k =
     (if k = key then Some (js_plus (map_of scores key) d) else map_of scores k)"
  by (simp add: add_to_def update_conv')

lemma Math_min_idem: "Math_min (Some (Math_min x c)) c = Math_min x c"
  by (cases "(x, c)" rule: Math_min.cases) auto

lemma map_of_fold_cap:
  "map_of (fold (\<lambda>key scores'. AList.update key (Math_min (map_of scores' key) c) scores') ks scores) k =
     (if k \<in> set ks then Some (Math_min (map_of scores k) c) else map_of scores k)"
  by (induction ks arbitrary: scores) (auto simp: update_conv' Math_min_idem)

lemma map_of_cap_scores:
  "map_of (cap_scores scores) k =
     (case map_of scores k of None \<Rightarrow> None | Some v \<Rightarrow> Some (Math_min (Some v) 10))"
proof (cases "map_of scores k")
  case None
  then have "k \<notin> set (map fst scores)" by (simp add: map_of_eq_None_iff)
  with None show ?thesis by (simp add: cap_scores_def map_of_fold_cap)
next
  case (Some v)
  then have "k \<in> set (map fst scores)" by (metis map_of_eq_None_iff option.distinct(1) set_map)
  with Some show ?thesis by (simp add: cap_scores_def map_of_fold_cap)
qed

lemma distinct_fold_update:
  "distinct (map fst acc) \<Longrightarrow> distinct (map fst (fold (\<lambda>key s. AList.update key (h key s) s) ks acc))"
  by (induction ks arbitrary: acc) (auto simp: distinct_update)

lemma distinct_add_to: "distinct (map fst s) \<Longrightarrow> distinct (map fst (add_to key d s))"
  by (simp add: add_to_def distinct_update)

lemma distinct_base_scores: "distinct (map fst (base_scores vocabulary queryLower))"
  unfolding base_scores_def by (rule distinct_fold_update) simp

lemma distinct_phrase_bonuses:
  "distinct (map fst s) \<Longrightarrow> distinct (map fst (phrase_bonuses queryLower s))"
  by (simp add: phrase_bonuses_def vacation_rule_def hiking_rule_def resort_rule_def
      museum_rule_def distinct_add_to)

lemma distinct_cap_scores: "distinct (map fst s) \<Longrightarrow> distinct (map fst (cap_scores s))"
  unfolding cap_scores_def by (rule distinct_fold_update)

lemma distinct_fallbackScoring_over:
  "distinct (map fst (fallbackScoring_over vocabulary query))"
  by (simp add: fallbackScoring_over_def Let_def distinct_cap_scores distinct_phrase_bonuses
      distinct_base_scores)

lemma bumped_bumped: "0 \<le> a \<Longrightarrow> 0 \<le> b \<Longrightarrow> bumped (bumped x a) b = bumped x (a + b)"
  by (cases "(x, a)" rule: js_plus.cases) (auto simp: bumped_def)

lemma vacation_bonus_nonneg: "0 \<le> vacation_bonus q k"
  by (simp add: vacation_bonus_def)
lemma hiking_bonus_nonneg: "0 \<le> hiking_bonus q k"
  by (simp add: hiking_bonus_def)
lemma resort_bonus_nonneg: "0 \<le> resort_bonus q k"
  by (simp add: resort_bonus_def)
lemma museum_bonus_nonneg: "0 \<le> museum_bonus q k"
  by (simp add: museum_bonus_def)

lemma map_of_vacation_rule:
  "map_of (vacation_rule q s) k = bumped (map_of s k) (vacation_bonus q k)"
  by (simp add: vacation_rule_def vacation_bonus_def bumped_def map_of_add_to)

lemma map_of_hiking_rule:
  "map_of (hiking_rule q s) k = bumped (map_of s k) (hiking_bonus q k)"
  by (simp add: hiking_rule_def hiking_bonus_def bumped_def map_of_add_to)

lemma map_of_resort_rule:
  "map_of (resort_rule q s) k = bumped (map_of s k) (resort_bonus q k)"
  by (simp add: resort_rule_def resort_bonus_def bumped_def map_of_add_to)

lemma map_of_museum_rule:
  "map_of (museum_rule q s) k = bumped (map_of s k) (museum_bonus q k)"
  by (simp add: museum_rule_def museum_bonus_def bumped_def map_of_add_to)

lemma map_of_phrase_bonuses:
  "map_of (phrase_bonuses q s) k = bumped (map_of s k) (phrase_bonus q k)"
  by (simp add: phrase_bonuses_def phrase_bonus_def map_of_vacation_rule map_of_hiking_rule
      map_of_resort_rule map_of_museum_rule bumped_bumped vacation_bonus_nonneg
      hiking_bonus_nonneg resort_bonus_nonneg museum_bonus_nonneg)

lemma map_of_fallbackScoring_over:
  "map_of (fallbackScoring_over vocabulary query) k =
     (if k \<in> set vocabulary
      then Some (Num (min (base_score (toLowerCase query) k + phrase_bonus (toLowerCase query) k) 10))
      else if phrase_bonus (toLowerCase query) k = 0 then None
      else Some NaN)"
  by (simp add: fallbackScoring_over_def Let_def map_of_cap_scores map_of_phrase_bonuses
      map_of_base_scores bumped_def)

lemma phrase_bonus_keywords: "phrase_bonus q k \<noteq> 0 \<Longrightarrow> k \<in> set bonus_keywords"
  by (auto simp: phrase_bonus_def vacation_bonus_def hiking_bonus_def resort_bonus_def
      museum_bonus_def bonus_keywords_def split: if_splits)

lemma bonus_keywords_predefined: "set bonus_keywords \<subseteq> set PREDEFINED_KEYWORDS"
  by (simp add: bonus_keywords_def PREDEFINED_KEYWORDS_def)

lemma phrase_bonus_nonneg: "0 \<le> phrase_bonus q k"
  by (simp add: phrase_bonus_def vacation_bonus_nonneg hiking_bonus_nonneg resort_bonus_nonneg
      museum_bonus_nonneg)

lemma base_score_ge_1: "1 \<le> base_score q k"
  by (simp add: base_score_def)

lemma fallbackScoring_over_entries:
  assumes "set bonus_keywords \<subseteq> set vocabulary"
  shows "(k, v) \<in> set (fallbackScoring_over vocabulary query) \<longleftrightarrow>
           k \<in> set vocabulary \<and>
           v = Num (min (base_score (toLowerCase query) k + phrase_bonus (toLowerCase query) k) 10)"
proof -
  have "(k, v) \<in> set (fallbackScoring_over vocabulary query) \<longleftrightarrow>
          map_of (fallbackScoring_over vocabulary query) k = Some v"
    using distinct_fallbackScoring_over [of vocabulary query] by simp
  also have "\<dots> \<longleftrightarrow> k \<in> set vocabulary \<and>
      v = Num (min (base_score (toLowerCase query) k + phrase_bonus (toLowerCase query) k) 10)"
    using assms phrase_bonus_keywords [of "toLowerCase query" k]
    by (auto simp: map_of_fallbackScoring_over)
  finally show ?thesis .
qed

lemmas scorer_defs = fallbackScoring_def fallbackScoring_over_def PREDEFINED_KEYWORDS_def
  base_scores_def base_score_def phrase_bonuses_def vacation_rule_def hiking_rule_def
  resort_rule_def museum_rule_def cap_scores_def add_to_def toLowerCase_def lower_char_def
  slice_0_minus2_def

section \<open>Properties of the ranker\<close>

lemma fold_score_keyword:
  "0 \<le> c \<Longrightarrow>
   fold (score_keyword c scores) ks (t, m) =
     (t + sum_list (map (score_of scores) (filter (scores_above c scores) ks)),
      m @ map (\<lambda>k. (k, score_of scores k)) (filter (scores_above c scores) ks))"
  by (induction ks arbitrary: t m)
     (auto simp: score_keyword_def scores_above_def score_of_def split: option.splits jsnum.splits)

lemma scores_above_score_of: "scores_above c scores k \<Longrightarrow> c < score_of scores k"
  by (auto simp: scores_above_def score_of_def split: option.splits jsnum.splits)

lemma total_pos_iff:
  assumes "0 \<le> c"
  shows "0 < total c scores e \<longleftrightarrow> contributing c scores e \<noteq> []"
proof (cases "contributing c scores e")
  case Nil
  then show ?thesis by (simp add: total_def)
next
  case (Cons k ks)
  have all: "\<forall>x \<in> set (contributing c scores e). 0 < score_of scores x"
    using assms scores_above_score_of by (fastforce simp: contributing_def)
  have "0 < score_of scores k" using all Cons by simp
  moreover have "0 \<le> sum_list (map (score_of scores) ks)"
    using all Cons by (intro sum_list_nonneg) auto
  ultimately show ?thesis using Cons by (simp add: total_def)
qed

lemma total_nonneg: "0 \<le> c \<Longrightarrow> 0 \<le> total c scores e"
  using total_pos_iff [of c scores e] by (cases "contributing c scores e") (auto simp: total_def)

lemma total_pos_iff_nonzero: "0 \<le> c \<Longrightarrow> 0 < total c scores e \<longleftrightarrow> total c scores e \<noteq> 0"
  using total_nonneg [of c scores e] by auto

lemma rank_pass_Nil: "rank_pass c scores [] = []"
  by (simp add: rank_pass_def)

lemma rank_pass_Cons:
  "rank_pass c scores (e # es) =
     (if total c scores e \<noteq> 0 then match_result c scores e # rank_pass c scores es
      else rank_pass c scores es)"
  by (simp add: rank_pass_def)

lemma push_result_fold:
  assumes "0 \<le> c" and "d_keywords e = KeywordArray ks"
  shows "push_result e (fold (score_keyword c scores) ks (0, [])) results =
           results @ rank_pass c scores [e]"
proof -
  have ek: "entity_keywords e = ks" using assms(2) by (simp add: entity_keywords_def)
  have f: "fold (score_keyword c scores) ks (0, []) = (total c scores e, matched c scores e)"
    using assms(1) ek by (simp add: fold_score_keyword total_def matched_def contributing_def)
  show ?thesis
    using total_pos_iff_nonzero [OF assms(1), of scores e]
    by (auto simp: f push_result_def rank_pass_def match_result_def top_matched_def)
qed

lemma total_no_keywords: "entity_keywords e = [] \<Longrightarrow> total c scores e = 0"
  by (simp add: total_def contributing_def)

lemma first_pass_step_eq:
  "first_pass_step scores e results = results @ rank_pass 5 scores [e]"
proof (cases "d_keywords e")
  case NotAnArray
  then show ?thesis
    by (simp add: first_pass_step_def rank_pass_def total_no_keywords entity_keywords_def)
next
  case (KeywordArray ks)
  show ?thesis
  proof (cases "ks = []")
    case True
    with KeywordArray show ?thesis
      by (simp add: first_pass_step_def rank_pass_def total_no_keywords entity_keywords_def)
  next
    case False
    with KeywordArray show ?thesis
      by (simp add: first_pass_step_def push_result_fold)
  qed
qed

lemma second_pass_step_eq:
  "second_pass_step scores e results = results @ rank_pass 3 scores [e]"
proof (cases "d_keywords e")
  case NotAnArray
  then show ?thesis
    by (simp add: second_pass_step_def rank_pass_def total_no_keywords entity_keywords_def)
next
  case (KeywordArray ks)
  then show ?thesis by (simp add: second_pass_step_def push_result_fold)
qed

lemma rank_pass_append:
  "rank_pass c scores (xs @ ys) = rank_pass c scores xs @ rank_pass c scores ys"
  by (simp add: rank_pass_def)

lemma fold_first_pass_step:
  "fold (first_pass_step scores) catalog results = results @ rank_pass 5 scores catalog"
proof (induction catalog arbitrary: results)
  case Nil
  then show ?case by (simp add: rank_pass_Nil)
next
  case (Cons e es)
  have split: "rank_pass 5 scores (e # es) = rank_pass 5 scores [e] @ rank_pass 5 scores es"
    using rank_pass_append [of 5 scores "[e]" es] by simp
  have "fold (first_pass_step scores) (e # es) results =
          fold (first_pass_step scores) es (first_pass_step scores e results)"
    by simp
  also have "\<dots> = first_pass_step scores e results @ rank_pass 5 scores es"
    by (rule Cons.IH)
  also have "\<dots> = results @ rank_pass 5 scores (e # es)"
    by (simp only: first_pass_step_eq split append_assoc)
  finally show ?case .
qed

lemma fold_second_pass_step:
  "fold (second_pass_step scores) catalog results = results @ rank_pass 3 scores catalog"
proof (induction catalog arbitrary: results)
  case Nil
  then show ?case by (simp add: rank_pass_Nil)
next
  case (Cons e es)
  have split: "rank_pass 3 scores (e # es) = rank_pass 3 scores [e] @ rank_pass 3 scores es"
    using rank_pass_append [of 3 scores "[e]" es] by simp
  have "fold (second_pass_step scores) (e # es) results =
          fold (second_pass_step scores) es (second_pass_step scores e results)"
    by simp
  also have "\<dots> = second_pass_step scores e results @ rank_pass 3 scores es"
    by (rule Cons.IH)
  also have "\<dots> = results @ rank_pass 3 scores (e # es)"
    by (simp only: second_pass_step_eq split append_assoc)
  finally show ?case .
qed

lemma first_pass_eq: "first_pass scores catalog = rank_pass 5 scores catalog"
  by (simp add: first_pass_def fold_first_pass_step)

lemma second_pass_eq: "second_pass scores catalog results = results @ rank_pass 3 scores catalog"
  by (simp add: second_pass_def fold_second_pass_step)

lemma findMatchingDestinations_eq:
  "findMatchingDestinations scores catalog =
     sort_key (\<lambda>r. - r_score r) (rank_pass (active_threshold scores catalog) scores catalog)"
  by (simp add: findMatchingDestinations_def Let_def second_pass_eq active_threshold_def first_pass_eq)

lemma rank_pass_empty_iff:
  "rank_pass c scores catalog = [] \<longleftrightarrow> (\<forall>e \<in> set catalog. total c scores e = 0)"
  by (auto simp: rank_pass_def filter_empty_conv)

lemma total_zero_iff: "0 \<le> c \<Longrightarrow> total c scores e = 0 \<longleftrightarrow> contributing c scores e = []"
  using total_pos_iff [of c scores e] total_nonneg [of c scores e] by auto

lemma r_score_match_result [simp]: "r_score (match_result c scores e) = total c scores e"
  by (simp add: match_result_def)

lemma r_id_match_result [simp]: "r_id (match_result c scores e) = d_id e"
  by (simp add: match_result_def)

lemma r_matchedKeywords_match_result:
  "r_matchedKeywords (match_result c scores e) =
     take 3 (sort_key (\<lambda>m. - snd m) (matched c scores e))"
  by (simp add: match_result_def)

lemma sorted_neg_desc: "sorted (map (\<lambda>x. - f x) xs) \<longleftrightarrow> sorted_wrt (\<lambda>a b. f b \<le> (f a :: int)) xs"
  by (simp add: sorted_wrt_map)

lemma top_sorted_desc:
  "sorted_wrt (\<lambda>a b. snd b \<le> snd a) (take 3 (sort_key (\<lambda>m. - snd m) (ms :: (string \<times> int) list)))"
proof -
  have "sorted (map (\<lambda>m. - snd m) (sort_key (\<lambda>m. - snd m) ms))" by (rule sorted_sort_key)
  then have "sorted_wrt (\<lambda>a b. snd b \<le> snd a) (sort_key (\<lambda>m. - snd m) ms)"
    by (simp add: sorted_neg_desc)
  then show ?thesis by (rule sorted_wrt_take)
qed

lemma active_threshold_cases:
  "active_threshold scores catalog = 3 \<or> active_threshold scores catalog = 5"
  by (simp add: active_threshold_def)

lemma active_threshold_nonneg: "0 \<le> active_threshold scores catalog"
  by (simp add: active_threshold_def)

lemma set_findMatchingDestinations:
  "set (findMatchingDestinations scores catalog) =
     set (rank_pass (active_threshold scores catalog) scores catalog)"
  by (simp add: findMatchingDestinations_eq)

lemma in_rank_passE:
  assumes "r \<in> set (rank_pass c scores catalog)"
  obtains e where "e \<in> set catalog" and "total c scores e \<noteq> 0" and "r = match_result c scores e"
  using assms by (auto simp: rank_pass_def)

lemma matched_entry:
  assumes "(k, v) \<in> set (matched c scores e)"
  shows "k \<in> set (entity_keywords e) \<and> map_of scores k = Some (Num v) \<and> c < v"
  using assms
  by (auto simp: matched_def contributing_def scores_above_def score_of_def
      split: option.splits jsnum.splits)

lemmas ranker_defs = findMatchingDestinations_def first_pass_def second_pass_def
  first_pass_step_def second_pass_step_def push_result_def score_keyword_def top_matched_def
  default_destination_def

lemmas rank_defs = rank_pass_def match_result_def total_def matched_def contributing_def
  entity_keywords_def scores_above_def score_of_def active_threshold_def

lemma rank_pass_skip:
  "total c scores e = 0 \<Longrightarrow> rank_pass c scores (xs @ e # ys) = rank_pass c scores (xs @ ys)"
  by (simp add: rank_pass_def)

lemma findMatchingDestinations_skip:
  assumes "entity_keywords e = []"
  shows "findMatchingDestinations scores (xs @ e # ys) = findMatchingDestinations scores (xs @ ys)"
proof -
  have z: "total c scores e = 0" for c using assms by (rule total_no_keywords)
  have "active_threshold scores (xs @ e # ys) = active_threshold scores (xs @ ys)"
    by (simp add: active_threshold_def first_pass_eq rank_pass_skip [OF z])
  then show ?thesis
    by (simp only: findMatchingDestinations_eq rank_pass_skip [OF z])
qed

lemma d_keywords_transform:
  "d_keywords (transform_destination JSON_parse dest) =
     (case Keywords dest of
        None \<Rightarrow> KeywordArray []
      | Some s \<Rightarrow> if s = [] then KeywordArray []
                  else (case JSON_parse s of None \<Rightarrow> KeywordArray [] | Some parsed \<Rightarrow> parsed))"
  by (simp add: transform_destination_def Let_def)

lemma precedes_iff: "precedes a b xs \<longleftrightarrow> (\<exists>us vs ws. xs = us @ a # vs @ b # ws)"
proof (induction xs)
  case Nil
  then show ?case by simp
next
  case (Cons x xs)
  show ?case
  proof
    assume "precedes a b (x # xs)"
    then consider "x = a" "b \<in> set xs" | "precedes a b xs" by auto
    then show "\<exists>us vs ws. x # xs = us @ a # vs @ b # ws"
    proof cases
      case 1
      then obtain vs ws where "xs = vs @ b # ws" by (auto simp: in_set_conv_decomp)
      with 1 have "x # xs = [] @ a # vs @ b # ws" by simp
      then show ?thesis by blast
    next
      case 2
      then obtain us vs ws where "xs = us @ a # vs @ b # ws" using Cons.IH by blast
      then have "x # xs = (x # us) @ a # vs @ b # ws" by simp
      then show ?thesis by blast
    qed
  next
    assume "\<exists>us vs ws. x # xs = us @ a # vs @ b # ws"
    then obtain us vs ws where eq: "x # xs = us @ a # vs @ b # ws" by blast
    show "precedes a b (x # xs)"
    proof (cases us)
      case Nil
      with eq show ?thesis by auto
    next
      case (Cons u us')
      with eq have "xs = us' @ a # vs @ b # ws" by simp
      then have "precedes a b xs" using Cons.IH by blast
      then show ?thesis by simp
    qed
  qed
qed

lemma precedes_in_set: "precedes a b xs \<Longrightarrow> a \<in> set xs \<and> b \<in> set xs"
  by (induction xs) auto

lemma precedes_map_sorted:
  assumes "sorted (map g xs)" and "precedes a b (map h xs)"
  shows "\<exists>x y. x \<in> set xs \<and> y \<in> set xs \<and> h x = a \<and> h y = b \<and> g x \<le> g y"
  using assms
proof (induction xs)
  case Nil
  then show ?case by simp
next
  case (Cons z zs)
  from Cons.prems(2) consider "h z = a" "b \<in> h ` set zs" | "precedes a b (map h zs)"
    by auto
  then show ?case
  proof cases
    case 1
    then obtain y where "y \<in> set zs" "h y = b" by auto
    moreover have "g z \<le> g y" using Cons.prems(1) \<open>y \<in> set zs\<close> by auto
    ultimately show ?thesis using 1 by auto
  next
    case 2
    moreover have "sorted (map g zs)" using Cons.prems(1) by simp
    ultimately obtain x y where "x \<in> set zs" "y \<in> set zs" "h x = a" "h y = b" "g x \<le> g y"
      using Cons.IH by blast
    then show ?thesis by auto
  qed
qed

lemma precedes_total:
  "a \<in> set xs \<Longrightarrow> b \<in> set xs \<Longrightarrow> a \<noteq> b \<Longrightarrow> precedes a b xs \<or> precedes b a xs"
  by (induction xs) auto

lemma precedes_distinct: "distinct xs \<Longrightarrow> precedes a b xs \<Longrightarrow> a \<noteq> b"
  by (induction xs) auto

lemma sum_list_strict_mono:
  fixes f g :: "'a \<Rightarrow> int"
  assumes "\<forall>x \<in> set xs. f x \<le> g x" and "\<exists>x \<in> set xs. f x < g x"
  shows "sum_list (map f xs) < sum_list (map g xs)"
  using assms
proof (induction xs)
  case Nil
  then show ?case by simp
next
  case (Cons x xs)
  have le: "sum_list (map f xs) \<le> sum_list (map g xs)"
    using Cons.prems(1) by (intro sum_list_mono) auto
  show ?case
  proof (cases "f x < g x")
    case True
    with le show ?thesis by simp
  next
    case False
    then have "\<exists>y \<in> set xs. f y < g y" using Cons.prems(2) by auto
    moreover have "\<forall>y \<in> set xs. f y \<le> g y" using Cons.prems(1) by simp
    ultimately have "sum_list (map f xs) < sum_list (map g xs)" by (rule Cons.IH [rotated])
    moreover have "f x \<le> g x" using Cons.prems(1) by simp
    ultimately show ?thesis by simp
  qed
qed

lemma total_as_sum:
  "total c scores e =
     sum_list (map (\<lambda>k. if scores_above c scores k then score_of scores k else 0) (entity_keywords e))"
proof -
  have "sum_list (map f (filter P ks)) = sum_list (map (\<lambda>k. if P k then f k else 0) ks)"
    for f :: "string \<Rightarrow> int" and P ks
    by (induction ks) auto
  then show ?thesis by (simp add: total_def contributing_def)
qed

lemma total_raise:
  assumes k: "keyword \<in> set (entity_keywords e)"
    and old: "map_of scores keyword = Some (Num v)"
    and above: "c < v" and raise: "v < v'"
  shows "total c scores e < total c (AList.update keyword (Num v') scores) e"
proof -
  define f where "f = (\<lambda>k. if scores_above c scores k then score_of scores k else 0)"
  define g where "g = (\<lambda>k. if scores_above c (AList.update keyword (Num v') scores) k
                          then score_of (AList.update keyword (Num v') scores) k else 0)"
  have other: "g k = f k" if "k \<noteq> keyword" for k
    using that by (simp add: f_def g_def scores_above_def score_of_def update_conv')
  have f_here: "f keyword = v"
    using old above by (simp add: f_def scores_above_def score_of_def)
  have g_here: "g keyword = v'"
    using above raise by (simp add: g_def scores_above_def score_of_def update_conv')
  have "\<forall>k \<in> set (entity_keywords e). f k \<le> g k"
  proof
    fix k assume "k \<in> set (entity_keywords e)"
    show "f k \<le> g k"
    proof (cases "k = keyword")
      case True
      then show ?thesis using f_here g_here raise by simp
    next
      case False
      then show ?thesis using other by simp
    qed
  qed
  moreover have "\<exists>k \<in> set (entity_keywords e). f k < g k"
    using k f_here g_here raise by (intro bexI [of _ keyword]) simp_all
  ultimately have "sum_list (map f (entity_keywords e)) < sum_list (map g (entity_keywords e))"
    by (rule sum_list_strict_mono)
  then show ?thesis by (simp only: total_as_sum f_def g_def)
qed

lemma map_r_id_rank_pass:
  "map r_id (rank_pass c scores catalog) = map d_id (filter (\<lambda>e. total c scores e \<noteq> 0) catalog)"
  by (simp add: rank_pass_def comp_def)

lemma distinct_ids_rank_pass:
  "distinct (map d_id catalog) \<Longrightarrow> distinct (map r_id (rank_pass c scores catalog))"
  by (simp add: map_r_id_rank_pass distinct_map_filter)

lemma distinct_map_insort_key:
  "distinct (map h (insort_key g x xs)) \<longleftrightarrow> h x \<notin> h ` set xs \<and> distinct (map h xs)"
  by (induction xs) (auto simp: set_insort_key)

lemma distinct_ids_sort_key:
  "distinct (map h xs) \<Longrightarrow> distinct (map h (sort_key g xs))"
  by (induction xs) (auto simp: distinct_map_insort_key)

lemma rank_pass_by_id:
  assumes "distinct (map d_id catalog)" and "e \<in> set catalog"
    and "r \<in> set (rank_pass c scores catalog)" and "r_id r = d_id e"
  shows "r = match_result c scores e \<and> total c scores e \<noteq> 0"
proof -
  from assms(3) obtain e' where e': "e' \<in> set catalog" "total c scores e' \<noteq> 0"
    "r = match_result c scores e'"
    by (rule in_rank_passE)
  have "inj_on d_id (set catalog)" using assms(1) by (simp add: distinct_map)
  moreover have "d_id e' = d_id e" using e'(3) assms(4) by simp
  ultimately have "e' = e" using e'(1) assms(2) by (auto dest: inj_onD)
  with e' show ?thesis by simp
qed

lemma in_rank_passI:
  "e \<in> set catalog \<Longrightarrow> total c scores e \<noteq> 0 \<Longrightarrow>
   match_result c scores e \<in> set (rank_pass c scores catalog)"
  by (simp add: rank_pass_def)

lemma precedes_in_ranking:
  assumes ids: "distinct (map d_id catalog)"
    and e: "e \<in> set catalog" and f: "f \<in> set catalog"
    and p: "precedes (d_id e) (d_id f)
              (map r_id (sort_key (\<lambda>r. - r_score r) (rank_pass c scores catalog)))"
  shows "total c scores f \<le> total c scores e \<and> total c scores e \<noteq> 0 \<and> total c scores f \<noteq> 0
         \<and> d_id e \<noteq> d_id f"
proof -
  let ?out = "sort_key (\<lambda>r. - r_score r) (rank_pass c scores catalog)"
  have "sorted (map (\<lambda>r. - r_score r) ?out)" by (rule sorted_sort_key)
  from precedes_map_sorted [OF this p]
  obtain x y where x: "x \<in> set ?out" "r_id x = d_id e" and y: "y \<in> set ?out" "r_id y = d_id f"
    and le: "- r_score x \<le> - r_score y" by blast
  have x': "x = match_result c scores e \<and> total c scores e \<noteq> 0"
    using rank_pass_by_id [OF ids e _ x(2)] x(1) by simp
  have y': "y = match_result c scores f \<and> total c scores f \<noteq> 0"
    using rank_pass_by_id [OF ids f _ y(2)] y(1) by simp
  have "distinct (map r_id ?out)"
    using ids by (intro distinct_ids_sort_key distinct_ids_rank_pass)
  then have "d_id e \<noteq> d_id f" using p by (rule precedes_distinct)
  then show ?thesis using x' y' le by simp
qed

section \<open>The verified statements\<close>

text \<open>
  C1, as stated, fails: a reply whose JSON object parses is returned as it is. With the reply
  \<^verbatim>\<open>{"beach": 99}\<close> the returned map has no entry for \<^verbatim>\<open>mountain\<close> and maps \<^verbatim>\<open>beach\<close> to 99.
\<close>

theorem unchecked_reply_counterexample:
  "''mountain'' \<in> set PREDEFINED_KEYWORDS
   \<and> map_of (analyzeQueryWithClaude ''beach'' (JsonObject [(''beach'', Num 99)])) ''mountain'' = None
   \<and> map_of (analyzeQueryWithClaude ''beach'' (JsonObject [(''beach'', Num 99)])) ''beach''
       = Some (Num 99)"
  by (simp add: PREDEFINED_KEYWORDS_def)

text \<open>
  C1, amended. On every path that ends in the fallback scorer (the call fails, the reply has
  no content, the content cannot be read or parsed, or it holds no JSON object) the returned
  map has exactly the keywords of the vocabulary as keys, each with an integer value between
  0 and 10. A JSON object found in the reply is returned unchanged.
\<close>

theorem score_covers_vocabulary_on_fallback:
  "(reply \<in> {CallFailed, NoContent, ContentUnreadable, NoJsonObject} \<longrightarrow>
      fst ` set (analyzeQueryWithClaude query reply) = set PREDEFINED_KEYWORDS
      \<and> (\<forall>k \<in> set PREDEFINED_KEYWORDS.
            \<exists>n. map_of (analyzeQueryWithClaude query reply) k = Some (Num n) \<and> 0 \<le> n \<and> n \<le> 10))
   \<and> (reply = JsonObject obj \<longrightarrow> analyzeQueryWithClaude query reply = obj)"
proof -
  have keys: "fst ` set (fallbackScoring query) = set PREDEFINED_KEYWORDS"
  proof (rule set_eqI)
    fix k
    show "k \<in> fst ` set (fallbackScoring query) \<longleftrightarrow> k \<in> set PREDEFINED_KEYWORDS"
      using fallbackScoring_over_entries [OF bonus_keywords_predefined, of k _ query]
      by (force simp: image_iff fallbackScoring_def)
  qed
  have vals: "\<exists>n. map_of (fallbackScoring query) k = Some (Num n) \<and> 0 \<le> n \<and> n \<le> 10"
    if "k \<in> set PREDEFINED_KEYWORDS" for k
    using that phrase_bonus_nonneg [of "toLowerCase query" k]
      base_score_ge_1 [of "toLowerCase query" k]
    by (simp add: fallbackScoring_def map_of_fallbackScoring_over)
  show ?thesis using keys vals by auto
qed

theorem score_covers_vocabulary_on_fallback_witness:
  "NoJsonObject \<in> {CallFailed, NoContent, ContentUnreadable, NoJsonObject}
   \<and> ''beach'' \<in> set PREDEFINED_KEYWORDS
   \<and> map_of (analyzeQueryWithClaude ''I want a beach vacation'' NoJsonObject) ''beach''
       = Some (Num 10)
   \<and> fst ` set (analyzeQueryWithClaude ''I want a beach vacation'' NoJsonObject)
       = set PREDEFINED_KEYWORDS
   \<and> analyzeQueryWithClaude ''I want a beach vacation'' (JsonObject [(''beach'', Num 8)])
       = [(''beach'', Num 8)]"
proof -
  have "map_of (fallbackScoring ''I want a beach vacation'') ''beach'' = Some (Num 10)"
    by (simp add: scorer_defs)
  moreover have "''beach'' \<in> set PREDEFINED_KEYWORDS"
    by (simp add: PREDEFINED_KEYWORDS_def)
  ultimately show ?thesis
    using score_covers_vocabulary_on_fallback
      [of NoJsonObject "''I want a beach vacation''" "[]"]
      score_covers_vocabulary_on_fallback
      [of "JsonObject [(''beach'', Num 8)]" "''I want a beach vacation''" "[(''beach'', Num 8)]"]
    by simp
qed

text \<open>
  C2. The first loop is the ranking procedure with threshold 5 and the second loop is the same
  procedure with threshold 3, run over the whole catalog exactly when the first produced
  nothing; the sorted result of the pass that ran last is returned, and nothing follows the
  second pass. When every score is 4 and some entity has a keyword scored 4, the first pass
  is empty and the result is not. With no scores at all the result is empty.
\<close>

theorem two_pass_policy:
  "first_pass scores catalog = rank_pass 5 scores catalog
   \<and> second_pass scores catalog [] = rank_pass 3 scores catalog
   \<and> findMatchingDestinations scores catalog =
       sort_key (\<lambda>r. - r_score r)
         (if first_pass scores catalog = [] then second_pass scores catalog []
          else first_pass scores catalog)
   \<and> ((\<forall>k v. map_of scores k = Some v \<longrightarrow> v = Num 4)
        \<and> (\<exists>e \<in> set catalog. \<exists>k \<in> set (entity_keywords e). map_of scores k = Some (Num 4))
       \<longrightarrow> first_pass scores catalog = [] \<and> findMatchingDestinations scores catalog \<noteq> [])
   \<and> findMatchingDestinations [] catalog = []"
proof -
  have fp: "first_pass scores catalog = rank_pass 5 scores catalog"
    by (rule first_pass_eq)
  have sp: "second_pass scores catalog [] = rank_pass 3 scores catalog"
    by (simp add: second_pass_eq)
  have both: "findMatchingDestinations scores catalog =
       sort_key (\<lambda>r. - r_score r)
         (if first_pass scores catalog = [] then second_pass scores catalog []
          else first_pass scores catalog)"
    by (simp add: findMatchingDestinations_def Let_def)
  have fours: "first_pass scores catalog = [] \<and> findMatchingDestinations scores catalog \<noteq> []"
    if all4: "\<forall>k v. map_of scores k = Some v \<longrightarrow> v = Num 4"
      and ex: "\<exists>e \<in> set catalog. \<exists>k \<in> set (entity_keywords e). map_of scores k = Some (Num 4)"
  proof -
    have "\<not> scores_above 5 scores k" for k
    proof (cases "map_of scores k")
      case None
      then show ?thesis by (simp add: scores_above_def)
    next
      case (Some v)
      with all4 have "v = Num 4" by blast
      with Some show ?thesis by (simp add: scores_above_def)
    qed
    then have "contributing 5 scores e = []" for e
      by (simp add: contributing_def)
    then have "total 5 scores e = 0" for e
      by (simp add: total_def)
    then have empty: "first_pass scores catalog = []"
      by (simp add: fp rank_pass_empty_iff)
    from ex obtain e k where e: "e \<in> set catalog" and k: "k \<in> set (entity_keywords e)"
      and s: "map_of scores k = Some (Num 4)" by blast
    have "scores_above 3 scores k" using s by (simp add: scores_above_def)
    then have "k \<in> set (contributing 3 scores e)" using k by (simp add: contributing_def)
    then have "contributing 3 scores e \<noteq> []" by auto
    then have "total 3 scores e \<noteq> 0" by (simp add: total_zero_iff)
    then have "rank_pass 3 scores catalog \<noteq> []" using e by (auto simp: rank_pass_empty_iff)
    then have "findMatchingDestinations scores catalog \<noteq> []"
      using empty by (simp add: both sp del: sort_key_simps) (metis length_sort length_0_conv)
    with empty show ?thesis by simp
  qed
  have none: "findMatchingDestinations [] catalog = []"
  proof -
    have "total c [] e = 0" for c e
      by (simp add: total_def contributing_def scores_above_def)
    then have "rank_pass c [] catalog = []" for c
      by (simp add: rank_pass_empty_iff)
    then show ?thesis by (simp add: findMatchingDestinations_eq)
  qed
  show ?thesis using fp sp both fours none by blast
qed

theorem two_pass_policy_witness:
  "first_pass [(''beach'', Num 4), (''mountain'', Num 4)]
     [default_destination ''D-1'' ''Goa'' [''beach'', ''food''] ''fa-water''] = []
   \<and> findMatchingDestinations [(''beach'', Num 4), (''mountain'', Num 4)]
       [default_destination ''D-1'' ''Goa'' [''beach'', ''food''] ''fa-water''] \<noteq> []
   \<and> findMatchingDestinations []
       [default_destination ''D-1'' ''Goa'' [''beach'', ''food''] ''fa-water''] = []"
proof -
  let ?scores = "[(''beach'', Num 4), (''mountain'', Num 4)]"
  let ?catalog = "[default_destination ''D-1'' ''Goa'' [''beach'', ''food''] ''fa-water'']"
  have all4: "\<forall>k v. map_of ?scores k = Some v \<longrightarrow> v = Num 4"
    by (auto split: if_splits)
  have ex: "\<exists>e \<in> set ?catalog. \<exists>k \<in> set (entity_keywords e). map_of ?scores k = Some (Num 4)"
    by (simp add: entity_keywords_def default_destination_def)
  have "first_pass ?scores ?catalog = [] \<and> findMatchingDestinations ?scores ?catalog \<noteq> []"
    using two_pass_policy [of ?scores ?catalog] all4 ex by blast
  moreover have "findMatchingDestinations [] ?catalog = []"
    using two_pass_policy [of "[]" ?catalog] by blast
  ultimately show ?thesis by blast
qed

text \<open>
  C3. The list that \<^verbatim>\<open>findMatchingDestinations\<close> returns is the sorted list of the results of
  exactly the catalog's entities whose total, at the threshold of the pass that ran last (5 or
  3), is not zero; each loop by itself returns these results in catalog order. The total is
  the sum of the scores of the entity's keywords that score above the threshold, over all of
  them; the matched list holds these keywords with their scores, sorted by descending score
  and cut to the first three.
\<close>

theorem per_entity_computation:
  "first_pass scores catalog =
     map (match_result 5 scores) (filter (\<lambda>e. total 5 scores e \<noteq> 0) catalog)
   \<and> second_pass scores catalog [] =
       map (match_result 3 scores) (filter (\<lambda>e. total 3 scores e \<noteq> 0) catalog)
   \<and> findMatchingDestinations scores catalog =
       sort_key (\<lambda>r. - r_score r)
         (map (match_result (active_threshold scores catalog) scores)
            (filter (\<lambda>e. total (active_threshold scores catalog) scores e \<noteq> 0) catalog))
   \<and> set (findMatchingDestinations scores catalog) =
       match_result (active_threshold scores catalog) scores `
         {e \<in> set catalog. total (active_threshold scores catalog) scores e \<noteq> 0}
   \<and> length (findMatchingDestinations scores catalog) =
       length (filter (\<lambda>e. total (active_threshold scores catalog) scores e \<noteq> 0) catalog)
   \<and> (active_threshold scores catalog = 5 \<or> active_threshold scores catalog = 3)
   \<and> r_score (match_result t scores e) =
       sum_list (map (score_of scores) (filter (scores_above t scores) (entity_keywords e)))
   \<and> r_matchedKeywords (match_result t scores e) =
       take 3 (sort_key (\<lambda>m. - snd m)
         (map (\<lambda>k. (k, score_of scores k)) (filter (scores_above t scores) (entity_keywords e))))
   \<and> sorted_wrt (\<lambda>a b. snd b \<le> snd a) (r_matchedKeywords (match_result t scores e))
   \<and> length (r_matchedKeywords (match_result t scores e)) \<le> 3"
proof -
  have "first_pass scores catalog =
     map (match_result 5 scores) (filter (\<lambda>e. total 5 scores e \<noteq> 0) catalog)"
    by (simp add: first_pass_eq rank_pass_def)
  moreover have "second_pass scores catalog [] =
       map (match_result 3 scores) (filter (\<lambda>e. total 3 scores e \<noteq> 0) catalog)"
    by (simp add: second_pass_eq rank_pass_def)
  moreover have out: "findMatchingDestinations scores catalog =
       sort_key (\<lambda>r. - r_score r)
         (map (match_result (active_threshold scores catalog) scores)
            (filter (\<lambda>e. total (active_threshold scores catalog) scores e \<noteq> 0) catalog))"
    by (simp only: findMatchingDestinations_eq rank_pass_def)
  moreover have "set (findMatchingDestinations scores catalog) =
       match_result (active_threshold scores catalog) scores `
         {e \<in> set catalog. total (active_threshold scores catalog) scores e \<noteq> 0}"
    by (simp add: out)
  moreover have "length (findMatchingDestinations scores catalog) =
       length (filter (\<lambda>e. total (active_threshold scores catalog) scores e \<noteq> 0) catalog)"
    by (simp add: out)
  moreover have "active_threshold scores catalog = 5 \<or> active_threshold scores catalog = 3"
    by (simp add: active_threshold_def)
  moreover have "r_score (match_result t scores e) =
       sum_list (map (score_of scores) (filter (scores_above t scores) (entity_keywords e)))"
    by (simp add: total_def contributing_def)
  moreover have "r_matchedKeywords (match_result t scores e) =
       take 3 (sort_key (\<lambda>m. - snd m)
         (map (\<lambda>k. (k, score_of scores k)) (filter (scores_above t scores) (entity_keywords e))))"
    by (simp add: r_matchedKeywords_match_result matched_def contributing_def)
  moreover have "sorted_wrt (\<lambda>a b. snd b \<le> snd a) (r_matchedKeywords (match_result t scores e))"
    by (simp only: r_matchedKeywords_match_result top_sorted_desc)
  moreover have "length (r_matchedKeywords (match_result t scores e)) \<le> 3"
    by (simp add: r_matchedKeywords_match_result)
  ultimately show ?thesis by blast
qed

theorem per_entity_computation_witness:
  "findMatchingDestinations
     [(''beach'', Num 6), (''island'', Num 9), (''summer'', Num 7), (''tropical'', Num 8),
      (''food'', Num 2), (''city'', Num 10)]
     [default_destination ''D-2'' ''Oslo'' [''food''] ''fa-city'',
      default_destination ''D-1'' ''Goa''
        [''beach'', ''island'', ''summer'', ''tropical'', ''food''] ''fa-water'',
      default_destination ''D-3'' ''Rio'' [''city'', ''beach'', ''food''] ''fa-city'']
   = [\<lparr> r_id = ''D-1'', r_name = ''Goa'', r_score = 30,
        r_matchedKeywords = [(''island'', 9), (''tropical'', 8), (''summer'', 7)],
        r_image = None, r_description = None, r_region = None, r_icon = ''fa-water'' \<rparr>,
      \<lparr> r_id = ''D-3'', r_name = ''Rio'', r_score = 16,
        r_matchedKeywords = [(''city'', 10), (''beach'', 6)],
        r_image = None, r_description = None, r_region = None, r_icon = ''fa-city'' \<rparr>]"
proof -
  let ?scores = "[(''beach'', Num 6), (''island'', Num 9), (''summer'', Num 7),
      (''tropical'', Num 8), (''food'', Num 2), (''city'', Num 10)]"
  let ?catalog = "[default_destination ''D-2'' ''Oslo'' [''food''] ''fa-city'',
      default_destination ''D-1'' ''Goa''
        [''beach'', ''island'', ''summer'', ''tropical'', ''food''] ''fa-water'',
      default_destination ''D-3'' ''Rio'' [''city'', ''beach'', ''food''] ''fa-city'']"
  have fp: "first_pass ?scores ?catalog \<noteq> []"
    by (simp add: ranker_defs)
  then have t: "active_threshold ?scores ?catalog = 5"
    by (simp only: active_threshold_def if_False)
  show ?thesis
    using per_entity_computation
      [of ?scores ?catalog, THEN conjunct2, THEN conjunct2, THEN conjunct1, unfolded t]
    by (simp add: total_def matched_def contributing_def match_result_def
        entity_keywords_def scores_above_def score_of_def default_destination_def)
qed



text \<open>
  C5. Every score the fallback scorer returns is an integer between 1 and 10: the base score,
  which is at least 1, plus the bonus of every rule that the query triggers (each rule once),
  capped at 10.
\<close>

theorem fallback_scores_capped:
  assumes "(k, v) \<in> set (fallbackScoring query)"
  shows "\<exists>n. v = Num n
           \<and> n = min (base_score (toLowerCase query) k + phrase_bonus (toLowerCase query) k) 10
           \<and> 1 \<le> base_score (toLowerCase query) k \<and> 1 \<le> n \<and> n \<le> 10"
  using assms phrase_bonus_nonneg [of "toLowerCase query" k]
    base_score_ge_1 [of "toLowerCase query" k]
  by (auto simp: fallbackScoring_def fallbackScoring_over_entries [OF bonus_keywords_predefined])

theorem fallback_scores_capped_witness:
  "(''historical'', Num 4) \<in> set (fallbackScoring ''museum history'')
   \<and> (''beach'', Num 10) \<in> set (fallbackScoring ''I want a beach vacation'')
   \<and> base_score (toLowerCase ''museum history'') ''historical'' = 1
   \<and> phrase_bonus (toLowerCase ''museum history'') ''historical'' = 3
   \<and> base_score (toLowerCase ''I want a beach vacation'') ''beach'' = 9
   \<and> phrase_bonus (toLowerCase ''I want a beach vacation'') ''beach'' = 2"
proof -
  have h: "(''historical'', Num 4) \<in> set (fallbackScoring ''museum history'')"
    by (simp add: scorer_defs)
  have b: "(''beach'', Num 10) \<in> set (fallbackScoring ''I want a beach vacation'')"
    by (simp add: scorer_defs)
  have "base_score (toLowerCase ''museum history'') ''historical'' = 1"
    by (simp add: scorer_defs)
  moreover have "base_score (toLowerCase ''I want a beach vacation'') ''beach'' = 9"
    by (simp add: scorer_defs)
  moreover have "phrase_bonus (toLowerCase ''museum history'') ''historical'' = 3"
    by (simp add: phrase_bonus_def vacation_bonus_def hiking_bonus_def resort_bonus_def
        museum_bonus_def toLowerCase_def lower_char_def)
  moreover have "phrase_bonus (toLowerCase ''I want a beach vacation'') ''beach'' = 2"
    by (simp add: phrase_bonus_def vacation_bonus_def hiking_bonus_def resort_bonus_def
        museum_bonus_def toLowerCase_def lower_char_def)
  ultimately show ?thesis
    using h b fallback_scores_capped [OF h] fallback_scores_capped [OF b]
    by simp
qed

text \<open>
  C6. For every query, the fallback scorer returns a map whose keys are exactly the keywords of
  the vocabulary and whose values are all integers, min (base + bonus, 10). Every keyword
  that a triggered bonus rule adjusts is a keyword of the vocabulary that the first loop has
  scored, so no adjustment is made to a missing keyword, and a keyword outside the vocabulary
  has no entry.
\<close>

theorem bonuses_within_vocabulary:
  "fst ` set (fallbackScoring query) = set PREDEFINED_KEYWORDS
   \<and> (\<forall>(k, v) \<in> set (fallbackScoring query).
         v = Num (min (base_score (toLowerCase query) k + phrase_bonus (toLowerCase query) k) 10))
   \<and> (\<forall>k. phrase_bonus (toLowerCase query) k \<noteq> 0 \<longrightarrow>
         k \<in> set PREDEFINED_KEYWORDS
         \<and> map_of (base_scores PREDEFINED_KEYWORDS (toLowerCase query)) k =
             Some (Num (base_score (toLowerCase query) k)))
   \<and> (\<forall>k. k \<notin> set PREDEFINED_KEYWORDS \<longrightarrow> map_of (fallbackScoring query) k = None)
   \<and> NaN \<notin> snd ` set (fallbackScoring query)"
proof -
  note entries = fallbackScoring_over_entries [OF bonus_keywords_predefined, of _ _ query,
      folded fallbackScoring_def]
  have keys: "fst ` set (fallbackScoring query) = set PREDEFINED_KEYWORDS"
  proof (rule set_eqI)
    fix k
    show "k \<in> fst ` set (fallbackScoring query) \<longleftrightarrow> k \<in> set PREDEFINED_KEYWORDS"
      using entries [of k] by (force simp: image_iff)
  qed
  have vals: "\<forall>(k, v) \<in> set (fallbackScoring query).
      v = Num (min (base_score (toLowerCase query) k + phrase_bonus (toLowerCase query) k) 10)"
    using entries by blast
  have adj: "\<forall>k. phrase_bonus (toLowerCase query) k \<noteq> 0 \<longrightarrow>
         k \<in> set PREDEFINED_KEYWORDS
         \<and> map_of (base_scores PREDEFINED_KEYWORDS (toLowerCase query)) k =
             Some (Num (base_score (toLowerCase query) k))"
    using phrase_bonus_keywords [of "toLowerCase query"] bonus_keywords_predefined
    by (auto simp: map_of_base_scores)
  have out: "\<forall>k. k \<notin> set PREDEFINED_KEYWORDS \<longrightarrow> map_of (fallbackScoring query) k = None"
    using keys by (metis map_of_eq_None_iff)
  have num: "NaN \<notin> snd ` set (fallbackScoring query)"
    using vals by force
  show ?thesis using keys vals adj out num by blast
qed

theorem bonuses_within_vocabulary_witness:
  "fst ` set (fallbackScoring ''Spa resort holiday'') = set PREDEFINED_KEYWORDS
   \<and> (''luxury'', Num 4) \<in> set (fallbackScoring ''Spa resort holiday'')
   \<and> phrase_bonus (toLowerCase ''Spa resort holiday'') ''luxury'' = 3
   \<and> map_of (base_scores PREDEFINED_KEYWORDS (toLowerCase ''Spa resort holiday'')) ''luxury''
       = Some (Num 1)
   \<and> ''spa'' \<notin> set PREDEFINED_KEYWORDS
   \<and> map_of (fallbackScoring ''Spa resort holiday'') ''spa'' = None"
proof -
  have m: "(''luxury'', Num 4) \<in> set (fallbackScoring ''Spa resort holiday'')"
    by (simp add: scorer_defs)
  have b: "phrase_bonus (toLowerCase ''Spa resort holiday'') ''luxury'' = 3"
    by (simp add: phrase_bonus_def vacation_bonus_def hiking_bonus_def resort_bonus_def
        museum_bonus_def toLowerCase_def lower_char_def)
  have s: "base_score (toLowerCase ''Spa resort holiday'') ''luxury'' = 1"
    by (simp add: scorer_defs)
  have n: "''spa'' \<notin> set PREDEFINED_KEYWORDS"
    by (simp add: PREDEFINED_KEYWORDS_def)
  show ?thesis
    using m b s n bonuses_within_vocabulary [of "''Spa resort holiday''"]
    by simp
qed

text \<open>
  C7. The returned list is sorted by descending total, and for every total \<open>s\<close> the results
  with that total are those of the catalog's entities with that total, in catalog order.
\<close>

theorem ranking_sorted_and_stable:
  "sorted_wrt (\<lambda>a b. r_score b \<le> r_score a) (findMatchingDestinations scores catalog)
   \<and> filter (\<lambda>r. r_score r = s) (findMatchingDestinations scores catalog) =
       map (match_result (active_threshold scores catalog) scores)
         (filter (\<lambda>e. total (active_threshold scores catalog) scores e = s \<and> s \<noteq> 0) catalog)"
proof -
  let ?t = "active_threshold scores catalog"
  let ?out = "findMatchingDestinations scores catalog"
  have out: "?out = sort_key (\<lambda>r. - r_score r) (rank_pass ?t scores catalog)"
    by (rule findMatchingDestinations_eq)
  have "sorted (map (\<lambda>r. - r_score r) ?out)"
    unfolding out by (rule sorted_sort_key)
  then have desc: "sorted_wrt (\<lambda>a b. r_score b \<le> r_score a) ?out"
    by (simp add: sorted_neg_desc)
  have "filter (\<lambda>r. r_score r = s) ?out = filter (\<lambda>r. - r_score r = - s) ?out"
    by simp
  also have "\<dots> = filter (\<lambda>r. - r_score r = - s) (rank_pass ?t scores catalog)"
    unfolding out by (rule sort_key_stable)
  also have "\<dots> = map (match_result ?t scores)
      (filter (\<lambda>e. total ?t scores e = s \<and> s \<noteq> 0) catalog)"
    by (auto simp: rank_pass_def filter_map comp_def intro!: arg_cong [where f = "map _"] filter_cong)
  finally show ?thesis using desc by simp
qed

theorem ranking_sorted_and_stable_witness:
  "map r_id (findMatchingDestinations
     [(''beach'', Num 9), (''mountain'', Num 9), (''city'', Num 6)]
     [default_destination ''D-1'' ''Goa'' [''beach''] ''fa-water'',
      default_destination ''D-2'' ''Chamonix'' [''mountain''] ''fa-mountain'',
      default_destination ''D-3'' ''Rio'' [''beach'', ''city''] ''fa-city''])
   = [''D-3'', ''D-1'', ''D-2'']
   \<and> map r_id (filter (\<lambda>r. r_score r = 9) (findMatchingDestinations
     [(''beach'', Num 9), (''mountain'', Num 9), (''city'', Num 6)]
     [default_destination ''D-1'' ''Goa'' [''beach''] ''fa-water'',
      default_destination ''D-2'' ''Chamonix'' [''mountain''] ''fa-mountain'',
      default_destination ''D-3'' ''Rio'' [''beach'', ''city''] ''fa-city'']))
   = [''D-1'', ''D-2'']"
proof -
  let ?scores = "[(''beach'', Num 9), (''mountain'', Num 9), (''city'', Num 6)]"
  let ?catalog = "[default_destination ''D-1'' ''Goa'' [''beach''] ''fa-water'',
      default_destination ''D-2'' ''Chamonix'' [''mountain''] ''fa-mountain'',
      default_destination ''D-3'' ''Rio'' [''beach'', ''city''] ''fa-city'']"
  have fp: "first_pass ?scores ?catalog \<noteq> []"
    by (simp add: ranker_defs)
  have "map r_id (filter (\<lambda>r. r_score r = 9) (findMatchingDestinations ?scores ?catalog))
          = [''D-1'', ''D-2'']"
    using ranking_sorted_and_stable [of ?scores ?catalog 9] fp
    by (simp add: rank_defs default_destination_def)
  moreover have "map r_id (findMatchingDestinations ?scores ?catalog) = [''D-3'', ''D-1'', ''D-2'']"
    by (simp add: ranker_defs)
  ultimately show ?thesis by simp
qed

text \<open>
  C8. Let the identifiers of the catalog be distinct, and let the score of a keyword that
  an entity \<open>e\<close> matches in the pass that produces the result be raised, the same pass
  producing the result afterwards. If \<open>e\<close> stood before an entity \<open>f\<close> whose total does not
  change, it still stands before \<open>f\<close>.
\<close>

theorem ranking_monotonic:
  assumes ids: "distinct (map d_id catalog)"
    and e: "e \<in> set catalog" and f: "f \<in> set catalog"
    and k: "keyword \<in> set (entity_keywords e)"
    and old: "map_of scores keyword = Some (Num v)"
    and matched: "active_threshold scores catalog < v"
    and raise: "v < v'"
    and same_pass: "active_threshold (AList.update keyword (Num v') scores) catalog =
                      active_threshold scores catalog"
    and unchanged: "total (active_threshold scores catalog)
                        (AList.update keyword (Num v') scores) f =
                      total (active_threshold scores catalog) scores f"
    and before: "precedes (d_id e) (d_id f)
                   (map r_id (findMatchingDestinations scores catalog))"
  shows "precedes (d_id e) (d_id f)
           (map r_id (findMatchingDestinations (AList.update keyword (Num v') scores) catalog))"
proof -
  let ?t = "active_threshold scores catalog"
  let ?scores' = "AList.update keyword (Num v') scores"
  let ?out' = "findMatchingDestinations ?scores' catalog"
  have out': "?out' = sort_key (\<lambda>r. - r_score r) (rank_pass ?t ?scores' catalog)"
    by (simp only: findMatchingDestinations_eq same_pass)
  have t0: "0 \<le> ?t" by (rule active_threshold_nonneg)
  have was: "total ?t scores f \<le> total ?t scores e \<and> total ?t scores e \<noteq> 0
             \<and> total ?t scores f \<noteq> 0 \<and> d_id e \<noteq> d_id f"
    using before by (intro precedes_in_ranking [OF ids e f]) (simp only: findMatchingDestinations_eq)
  have up: "total ?t scores e < total ?t ?scores' e"
    using k old matched raise by (rule total_raise)
  have e_pos: "total ?t ?scores' e \<noteq> 0"
    using up total_nonneg [OF t0, of scores e] by simp
  have f_pos: "total ?t ?scores' f \<noteq> 0"
    using was unchanged by simp
  have "d_id e \<in> set (map r_id ?out')"
    using in_rank_passI [OF e e_pos] by (force simp: out')
  moreover have "d_id f \<in> set (map r_id ?out')"
    using in_rank_passI [OF f f_pos] by (force simp: out')
  moreover have "d_id e \<noteq> d_id f" using was by simp
  ultimately consider "precedes (d_id e) (d_id f) (map r_id ?out')"
    | "precedes (d_id f) (d_id e) (map r_id ?out')"
    using precedes_total by metis
  then show ?thesis
  proof cases
    case 1
    then show ?thesis .
  next
    case 2
    then have "total ?t ?scores' e \<le> total ?t ?scores' f"
      using precedes_in_ranking [OF ids f e, of ?t ?scores'] by (simp only: out')
    then have False using up was unchanged by simp
    then show ?thesis ..
  qed
qed

theorem ranking_monotonic_witness:
  "precedes ''D-1'' ''D-2''
     (map r_id (findMatchingDestinations [(''beach'', Num 6), (''city'', Num 6)]
        [default_destination ''D-1'' ''Goa'' [''beach''] ''fa-water'',
         default_destination ''D-2'' ''Oslo'' [''city''] ''fa-city'']))
   \<and> precedes ''D-1'' ''D-2''
     (map r_id (findMatchingDestinations
        (AList.update ''beach'' (Num 8) [(''beach'', Num 6), (''city'', Num 6)])
        [default_destination ''D-1'' ''Goa'' [''beach''] ''fa-water'',
         default_destination ''D-2'' ''Oslo'' [''city''] ''fa-city'']))"
proof -
  let ?scores = "[(''beach'', Num 6), (''city'', Num 6)]"
  let ?e = "default_destination ''D-1'' ''Goa'' [''beach''] ''fa-water''"
  let ?f = "default_destination ''D-2'' ''Oslo'' [''city''] ''fa-city''"
  let ?catalog = "[?e, ?f]"
  have ids: "distinct (map d_id ?catalog)" by (simp add: default_destination_def)
  have e: "?e \<in> set ?catalog" and f: "?f \<in> set ?catalog" by simp_all
  have k: "''beach'' \<in> set (entity_keywords ?e)"
    by (simp add: entity_keywords_def default_destination_def)
  have old: "map_of ?scores ''beach'' = Some (Num 6)" by simp
  have t: "active_threshold ?scores ?catalog = 5"
    by (simp add: active_threshold_def ranker_defs)
  have t': "active_threshold (AList.update ''beach'' (Num 8) ?scores) ?catalog = 5"
    by (simp add: active_threshold_def ranker_defs)
  have matched: "active_threshold ?scores ?catalog < 6" by (simp add: t)
  have raise: "(6::int) < 8" by simp
  have same: "active_threshold (AList.update ''beach'' (Num 8) ?scores) ?catalog =
      active_threshold ?scores ?catalog" by (simp only: t t')
  have unchanged: "total (active_threshold ?scores ?catalog)
      (AList.update ''beach'' (Num 8) ?scores) ?f = total (active_threshold ?scores ?catalog) ?scores ?f"
    by (simp add: t total_def contributing_def entity_keywords_def default_destination_def
        scores_above_def score_of_def)
  have before: "precedes (d_id ?e) (d_id ?f) (map r_id (findMatchingDestinations ?scores ?catalog))"
    by (simp add: ranker_defs)
  have "precedes (d_id ?e) (d_id ?f)
     (map r_id (findMatchingDestinations (AList.update ''beach'' (Num 8) ?scores) ?catalog))"
    using ids e f k old matched raise same unchanged before by (rule ranking_monotonic)
  with before show ?thesis by (simp add: default_destination_def)
qed

text \<open>
  C9. When \<^verbatim>\<open>JSON.parse\<close> throws on the keyword field of a record, the destination made from
  it has the empty keyword array; the load goes on to the records before and after it, which
  are transformed as they are without it; and no ranking ever returns that destination.
\<close>

theorem keyword_parse_failure_recovered:
  assumes "Keywords dest = Some s" and "JSON_parse s = None"
  shows "d_keywords (transform_destination JSON_parse dest) = KeywordArray []
         \<and> load_DESTINATIONS JSON_parse
             (Some \<lparr> success = True, destinations = Some (ds1 @ dest # ds2) \<rparr>) =
             map (transform_destination JSON_parse) ds1
               @ transform_destination JSON_parse dest
               # map (transform_destination JSON_parse) ds2
         \<and> findMatchingDestinations scores
             (load_DESTINATIONS JSON_parse
                (Some \<lparr> success = True, destinations = Some (ds1 @ dest # ds2) \<rparr>)) =
           findMatchingDestinations scores
             (load_DESTINATIONS JSON_parse
                (Some \<lparr> success = True, destinations = Some (ds1 @ ds2) \<rparr>))"
proof -
  have k: "d_keywords (transform_destination JSON_parse dest) = KeywordArray []"
    using assms by (simp add: d_keywords_transform)
  then have ek: "entity_keywords (transform_destination JSON_parse dest) = []"
    by (simp add: entity_keywords_def)
  have l: "load_DESTINATIONS JSON_parse (Some \<lparr> success = True, destinations = Some ds \<rparr>) =
             map (transform_destination JSON_parse) ds" for ds
    by (simp add: load_DESTINATIONS_def)
  show ?thesis
    using k by (simp add: l findMatchingDestinations_skip [OF ek])
qed

theorem keyword_parse_failure_recovered_witness:
  "map d_keywords
     (load_DESTINATIONS
        (\<lambda>s. if s = ''['' @ [CHR 0x22] @ ''beach'' @ [CHR 0x22] @ '']''
              then Some (KeywordArray [''beach'']) else None)
        (Some \<lparr> success = True, destinations = Some
           ([\<lparr> DestinationID = ''D-1'', Name = ''Goa'', Country = Some ''India'',
               Keywords = Some (''['' @ [CHR 0x22] @ ''beach'' @ [CHR 0x22] @ '']''),
               ImageURL = None, Description = None, Region = None, Icon = None \<rparr>]
            @ \<lparr> DestinationID = ''D-2'', Name = ''Oslo'', Country = None,
                Keywords = Some ''[beach, city'',
                ImageURL = None, Description = None, Region = None, Icon = None \<rparr>
            # [\<lparr> DestinationID = ''D-3'', Name = ''Rio'', Country = None,
                Keywords = Some (''['' @ [CHR 0x22] @ ''beach'' @ [CHR 0x22] @ '']''),
                ImageURL = None, Description = None, Region = None, Icon = None \<rparr>]) \<rparr>))
   = [KeywordArray [''beach''], KeywordArray [], KeywordArray [''beach'']]"
proof -
  let ?parse = "\<lambda>s. if s = ''['' @ [CHR 0x22] @ ''beach'' @ [CHR 0x22] @ '']''
              then Some (KeywordArray [''beach'']) else None"
  let ?dest = "\<lparr> DestinationID = ''D-2'', Name = ''Oslo'', Country = None,
                Keywords = Some ''[beach, city'',
                ImageURL = None, Description = None, Region = None, Icon = None \<rparr>"
  let ?ds1 = "[\<lparr> DestinationID = ''D-1'', Name = ''Goa'', Country = Some ''India'',
               Keywords = Some (''['' @ [CHR 0x22] @ ''beach'' @ [CHR 0x22] @ '']''),
               ImageURL = None, Description = None, Region = None, Icon = None \<rparr>]"
  let ?ds2 = "[\<lparr> DestinationID = ''D-3'', Name = ''Rio'', Country = None,
                Keywords = Some (''['' @ [CHR 0x22] @ ''beach'' @ [CHR 0x22] @ '']''),
                ImageURL = None, Description = None, Region = None, Icon = None \<rparr>]"
  have a: "Keywords ?dest = Some ''[beach, city''" by simp
  have b: "?parse ''[beach, city'' = None" by simp
  show ?thesis
    using keyword_parse_failure_recovered
      [of ?dest "''[beach, city''" ?parse ?ds1 ?ds2 "[]", OF a b]
    by (simp add: d_keywords_transform)
qed

text \<open>
  C10. Every returned result has a positive total and between one and three matched pairs;
  each pair's score is the keyword's score and lies above the threshold of the pass that
  produced the result.
\<close>

theorem match_result_invariant:
  assumes "r \<in> set (findMatchingDestinations scores catalog)"
  shows "0 < r_score r
         \<and> 1 \<le> length (r_matchedKeywords r) \<and> length (r_matchedKeywords r) \<le> 3
         \<and> (\<forall>(k, v) \<in> set (r_matchedKeywords r).
               active_threshold scores catalog < v \<and> map_of scores k = Some (Num v))"
proof -
  let ?t = "active_threshold scores catalog"
  have t0: "0 \<le> ?t" by (rule active_threshold_nonneg)
  from assms have "r \<in> set (rank_pass ?t scores catalog)"
    by (simp add: set_findMatchingDestinations)
  then obtain e where nz: "total ?t scores e \<noteq> 0" and r: "r = match_result ?t scores e"
    by (rule in_rank_passE)
  have pos: "0 < r_score r"
    using nz total_pos_iff_nonzero [OF t0, of scores e] by (simp add: r)
  have "contributing ?t scores e \<noteq> []"
    using nz total_zero_iff [OF t0, of scores e] by simp
  then have "matched ?t scores e \<noteq> []" by (simp add: matched_def)
  then have "1 \<le> length (matched ?t scores e)" by (cases "matched ?t scores e") auto
  then have len: "1 \<le> length (r_matchedKeywords r) \<and> length (r_matchedKeywords r) \<le> 3"
    by (simp add: r r_matchedKeywords_match_result)
  have "set (r_matchedKeywords r) \<subseteq> set (matched ?t scores e)"
    using set_take_subset [of 3 "sort_key (\<lambda>m. - snd m) (matched ?t scores e)"]
    by (simp add: r r_matchedKeywords_match_result)
  then have "\<forall>(k, v) \<in> set (r_matchedKeywords r). ?t < v \<and> map_of scores k = Some (Num v)"
    using matched_entry [of _ _ ?t scores e] by blast
  with pos len show ?thesis by simp
qed

theorem match_result_invariant_witness:
  "\<lparr> r_id = ''D-1'', r_name = ''Goa'', r_score = 4,
      r_matchedKeywords = [(''beach'', 4)],
      r_image = None, r_description = None, r_region = None, r_icon = ''fa-water'' \<rparr>
     \<in> set (findMatchingDestinations [(''beach'', Num 4), (''food'', Num 3)]
              [default_destination ''D-1'' ''Goa'' [''beach'', ''food''] ''fa-water''])
   \<and> active_threshold [(''beach'', Num 4), (''food'', Num 3)]
        [default_destination ''D-1'' ''Goa'' [''beach'', ''food''] ''fa-water''] = 3
   \<and> 0 < r_score \<lparr> r_id = ''D-1'', r_name = ''Goa'', r_score = 4,
      r_matchedKeywords = [(''beach'', 4)],
      r_image = None, r_description = None, r_region = None, r_icon = ''fa-water'' \<rparr>"
proof -
  let ?r = "\<lparr> r_id = ''D-1'', r_name = ''Goa'', r_score = 4,
      r_matchedKeywords = [(''beach'', 4)],
      r_image = None, r_description = None, r_region = None, r_icon = ''fa-water'' \<rparr>"
  let ?scores = "[(''beach'', Num 4), (''food'', Num 3)]"
  let ?catalog = "[default_destination ''D-1'' ''Goa'' [''beach'', ''food''] ''fa-water'']"
  have m: "?r \<in> set (findMatchingDestinations ?scores ?catalog)"
    by (simp add: ranker_defs)
  have a: "active_threshold ?scores ?catalog = 3"
    by (simp add: active_threshold_def ranker_defs)
  show ?thesis
    using m a match_result_invariant [OF m] by simp
qed

end
